theory Spec2Isabelle
  imports
    Complex_Main
    "HOL-Library.List_Lexorder"
    "HOL-Library.Product_Lexorder"
    "HOL-Library.AList"
    "HOL-Library.Multiset"
begin

section \<open>Data model\<close>

text \<open>
  A Python \<open>str\<close> is a sequence of Unicode code points, each between 0 and
  \<open>0x10FFFF\<close>, compared lexicographically by code point (a proper prefix is smaller).
  Identifiers are therefore lists of code points, ordered by the lexicographic order on
  lists. A list is a Python string when \<open>is_pystr\<close> holds of it.

  Tuples compare lexicographically as well, which is the order on pairs used here.

  Prices are modelled as exact rationals: every finite float is one, and the order and the
  validation test of the source are the ones of the rationals. NaN and the rounding of float
  arithmetic are outside the model. Quantities are Python's unbounded integers.
\<close>

type_synonym pystr = "nat list"

definition max_codepoint :: nat where
  "max_codepoint = 1114111"

definition is_pystr :: "pystr \<Rightarrow> bool" where
  "is_pystr s = list_all (\<lambda>c. c \<le> max_codepoint) s"

text \<open>
  The metadata dictionary is opaque to the service: it is stored and returned, never read.
  It is an association list from strings to strings.
\<close>

type_synonym metadata = "(pystr \<times> pystr) list"

record item =
  price :: rat
  qty :: int
  metadata :: metadata

text \<open>\<open>metadata or {}\<close>: \<open>None\<close> and the empty dictionary are falsy.\<close>

definition or_empty :: "metadata option \<Rightarrow> metadata" where
  "or_empty md = (case md of None \<Rightarrow> [] | Some m \<Rightarrow> (if m = [] then [] else m))"

text \<open>\<open>Item.__init__\<close> of \<open>models/inventory_items.py\<close>.\<close>

definition Item :: "rat \<Rightarrow> int \<Rightarrow> metadata option \<Rightarrow> item" where
  "Item p q md = \<lparr>price = p, qty = q, metadata = or_empty md\<rparr>"

datatype error = InvalidItemError | ItemNotFoundError | KeyError

text \<open>
  A Python \<open>dict\<close> keeps its keys in insertion order; assigning to a key that is present
  replaces the value in place, assigning to a new key appends. That is \<open>AList.update\<close> on
  an association list; \<open>del\<close> and \<open>pop\<close> are \<open>AList.delete\<close>, and a lookup is
  \<open>map_of\<close>.
\<close>

type_synonym item_dict = "(pystr \<times> item) list"

section \<open>The standard library's \<open>bisect\<close> and slices\<close>

text \<open>
  \<open>bisect.bisect_left(a, x)\<close>: the binary search of the standard library, with
  \<open>lo = 0\<close> and \<open>hi = len(a)\<close>.
\<close>

function bisect_left_loop :: "'a::linorder list \<Rightarrow> 'a \<Rightarrow> nat \<Rightarrow> nat \<Rightarrow> nat" where
  "bisect_left_loop a x lo hi =
     (if lo < hi then
        (if a ! ((lo + hi) div 2) < x
         then bisect_left_loop a x ((lo + hi) div 2 + 1) hi
         else bisect_left_loop a x lo ((lo + hi) div 2))
      else lo)"
  by pat_completeness auto
termination
  by (relation "measure (\<lambda>(a, x, lo, hi). hi - lo)") auto

declare bisect_left_loop.simps [simp del]

definition bisect_left :: "'a::linorder list \<Rightarrow> 'a \<Rightarrow> nat" where
  "bisect_left a x = bisect_left_loop a x 0 (length a)"

function bisect_right_loop :: "'a::linorder list \<Rightarrow> 'a \<Rightarrow> nat \<Rightarrow> nat \<Rightarrow> nat" where
  "bisect_right_loop a x lo hi =
     (if lo < hi then
        (if x < a ! ((lo + hi) div 2)
         then bisect_right_loop a x lo ((lo + hi) div 2)
         else bisect_right_loop a x ((lo + hi) div 2 + 1) hi)
      else lo)"
  by pat_completeness auto
termination
  by (relation "measure (\<lambda>(a, x, lo, hi). hi - lo)") auto

declare bisect_right_loop.simps [simp del]

definition bisect_right :: "'a::linorder list \<Rightarrow> 'a \<Rightarrow> nat" where
  "bisect_right a x = bisect_right_loop a x 0 (length a)"

text \<open>\<open>bisect.insort(a, x)\<close> is \<open>a.insert(bisect_right(a, x), x)\<close>.\<close>

definition py_insort :: "'a::linorder \<Rightarrow> 'a list \<Rightarrow> 'a list" where
  "py_insort x a = (let i = bisect_right a x in take i a @ x # drop i a)"

text \<open>\<open>a.pop(i)\<close> for an index in range.\<close>

definition list_pop :: "nat \<Rightarrow> 'a list \<Rightarrow> 'a list" where
  "list_pop i a = take i a @ drop (Suc i) a"

text \<open>\<open>a[left:right]\<close> for two non-negative indices.\<close>

definition slice :: "nat \<Rightarrow> nat \<Rightarrow> 'a list \<Rightarrow> 'a list" where
  "slice left right a = drop left (take right a)"

text \<open>
  \<open>a[start:]\<close> for any integer: a negative start counts from the end and is clamped at 0,
  a start beyond the end is clamped at the length.
\<close>

definition slice_from :: "int \<Rightarrow> 'a list \<Rightarrow> 'a list" where
  "slice_from start a =
     (let n = int (length a);
          st = (if start < 0 then max 0 (start + n) else min start n)
      in drop (nat st) a)"

section \<open>The standard library's \<open>functools.lru_cache\<close>\<close>

text \<open>
  The cache of one decorated method: its entries from the most recently used to the least
  recently used. A hit returns the stored value and makes the entry the most recent; a miss
  calls the function, stores the result in front and drops the least recently used entry
  when the cache is full. A call that raises stores nothing.
\<close>

type_synonym ('k, 'v) lru = "('k \<times> 'v) list"

definition lru_cached ::
  "nat \<Rightarrow> ('k, 'v) lru \<Rightarrow> 'k \<Rightarrow> (error + 'v) \<Rightarrow> (error + 'v) \<times> ('k, 'v) lru" where
  "lru_cached maxsize cache key computed =
     (case map_of cache key of
        Some v \<Rightarrow> (Inr v, (key, v) # AList.delete key cache)
      | None \<Rightarrow>
          (case computed of
             Inl e \<Rightarrow> (Inl e, cache)
           | Inr v \<Rightarrow> (Inr v, take maxsize ((key, v) # cache))))"

section \<open>\<open>ThreadSafeInventoryService\<close>\<close>

text \<open>
  The state guarded by the lock: the item dictionary, the two sorted indices, and the
  caches of the four decorated query methods. Every public method runs under the one
  re-entrant lock, so a call is one atomic step on this state.
\<close>

record service =
  items :: item_dict
  price_index :: "(rat \<times> pystr) list"
  quantity_index :: "(int \<times> pystr) list"
  range_quantity_cache :: "(rat \<times> rat, int) lru"
  range_value_cache :: "(rat \<times> rat, rat) lru"
  top_price_cache :: "(int, (pystr \<times> item) list) lru"
  top_quantity_cache :: "(int, (pystr \<times> item) list) lru"

text \<open>\<open>__init__\<close>\<close>

definition init_service :: service where
  "init_service =
     \<lparr>items = [], price_index = [], quantity_index = [],
      range_quantity_cache = [], range_value_cache = [],
      top_price_cache = [], top_quantity_cache = []\<rparr>"

text \<open>\<open>_clear_caches\<close>\<close>

definition clear_caches :: "service \<Rightarrow> service" where
  "clear_caches s =
     s\<lparr>range_quantity_cache := [], range_value_cache := [],
       top_price_cache := [], top_quantity_cache := []\<rparr>"

text \<open>
  The removal of an index entry, written out four times in the source:
  \<open>idx = bisect_left(index, key)\<close>, then \<open>index.pop(idx)\<close> when \<open>idx\<close> is in range and
  the entry there is \<open>key\<close>.
\<close>

definition index_discard :: "'a::linorder \<Rightarrow> 'a list \<Rightarrow> 'a list" where
  "index_discard key index =
     (let idx = bisect_left index key
      in if idx < length index \<and> index ! idx = key then list_pop idx index else index)"

text \<open>
  \<open>upsert_item\<close>. The result is the outcome of the call together with the state it leaves,
  also when it raises. The test \<open>if old:\<close> is true of every stored \<open>Item\<close> (the class has
  neither \<open>__bool__\<close> nor \<open>__len__\<close>), so it is the test that the identifier is present.
\<close>

definition upsert_item ::
  "pystr \<Rightarrow> rat \<Rightarrow> int \<Rightarrow> metadata option \<Rightarrow> service \<Rightarrow> (error + unit) \<times> service" where
  "upsert_item item_id p q md s =
     (if p < 0 \<or> q < 0 then (Inl InvalidItemError, s)
      else
        let s1 = (case map_of (items s) item_id of
                    None \<Rightarrow> s
                  | Some old \<Rightarrow>
                      s\<lparr>price_index := index_discard (price old, item_id) (price_index s),
                        quantity_index := index_discard (qty old, item_id) (quantity_index s)\<rparr>);
            s2 = s1\<lparr>items := AList.update item_id (Item p q (Some (or_empty md))) (items s1)\<rparr>;
            s3 = s2\<lparr>price_index := py_insort (p, item_id) (price_index s2)\<rparr>;
            s4 = s3\<lparr>quantity_index := py_insort (q, item_id) (quantity_index s3)\<rparr>
        in (Inr (), clear_caches s4))"

text \<open>\<open>remove_item\<close>: the \<open>pop\<close> comes first, the test for \<open>None\<close> after it.\<close>

definition remove_item :: "pystr \<Rightarrow> service \<Rightarrow> (error + unit) \<times> service" where
  "remove_item item_id s =
     (let popped = map_of (items s) item_id;
          s1 = s\<lparr>items := AList.delete item_id (items s)\<rparr>
      in case popped of
           None \<Rightarrow> (Inl ItemNotFoundError, s1)
         | Some itm \<Rightarrow>
             let s2 = s1\<lparr>price_index := index_discard (price itm, item_id) (price_index s1)\<rparr>;
                 s3 = s2\<lparr>quantity_index := index_discard (qty itm, item_id) (quantity_index s2)\<rparr>
             in (Inr (), clear_caches s3))"

text \<open>\<open>get_item\<close>: a \<open>KeyError\<close> of the dictionary becomes \<open>ItemNotFoundError\<close>.\<close>

definition get_item :: "pystr \<Rightarrow> service \<Rightarrow> (error + item) \<times> service" where
  "get_item item_id s =
     (case map_of (items s) item_id of
        Some itm \<Rightarrow> (Inr itm, s)
      | None \<Rightarrow> (Inl ItemNotFoundError, s))"


subsection \<open>Range queries\<close>

text \<open>The upper sentinel of the source, \<open>chr(0x10ffff)\<close>: a string of one code point.\<close>

definition high_sentinel :: pystr where
  "high_sentinel = [max_codepoint]"

text \<open>The loop \<open>total += self._items[item_id].qty\<close>; a missing key raises \<open>KeyError\<close>.\<close>

fun sum_qty :: "item_dict \<Rightarrow> (rat \<times> pystr) list \<Rightarrow> int \<Rightarrow> error + int" where
  "sum_qty its [] tot = Inr tot"
| "sum_qty its ((_, item_id) # rest) tot =
     (case map_of its item_id of
        None \<Rightarrow> Inl KeyError
      | Some itm \<Rightarrow> sum_qty its rest (tot + qty itm))"

fun sum_value :: "item_dict \<Rightarrow> (rat \<times> pystr) list \<Rightarrow> rat \<Rightarrow> error + rat" where
  "sum_value its [] tot = Inr tot"
| "sum_value its ((_, item_id) # rest) tot =
     (case map_of its item_id of
        None \<Rightarrow> Inl KeyError
      | Some itm \<Rightarrow> sum_value its rest (tot + price itm * of_int (qty itm)))"

text \<open>The bodies of the two range queries, below the decorator.\<close>

definition compute_range_query_quantity :: "service \<Rightarrow> rat \<Rightarrow> rat \<Rightarrow> error + int" where
  "compute_range_query_quantity s low high =
     (let left = bisect_left (price_index s) (low, []);
          right = bisect_right (price_index s) (high, high_sentinel)
      in sum_qty (items s) (slice left right (price_index s)) 0)"

definition compute_range_query_value :: "service \<Rightarrow> rat \<Rightarrow> rat \<Rightarrow> error + rat" where
  "compute_range_query_value s low high =
     (let left = bisect_left (price_index s) (low, []);
          right = bisect_right (price_index s) (high, high_sentinel)
      in sum_value (items s) (slice left right (price_index s)) 0)"

text \<open>The decorated methods: the cache is consulted first.\<close>

definition range_query_quantity :: "rat \<Rightarrow> rat \<Rightarrow> service \<Rightarrow> (error + int) \<times> service" where
  "range_query_quantity low high s =
     (let (r, c) = lru_cached 128 (range_quantity_cache s) (low, high)
                     (compute_range_query_quantity s low high)
      in (r, s\<lparr>range_quantity_cache := c\<rparr>))"

definition range_query_value :: "rat \<Rightarrow> rat \<Rightarrow> service \<Rightarrow> (error + rat) \<times> service" where
  "range_query_value low high s =
     (let (r, c) = lru_cached 128 (range_value_cache s) (low, high)
                     (compute_range_query_value s low high)
      in (r, s\<lparr>range_value_cache := c\<rparr>))"

subsection \<open>Top-K queries\<close>

text \<open>
  The comprehension \<open>[(item_id, self._items[item_id]) for _, item_id in ...]\<close>; a missing
  key raises \<open>KeyError\<close>.
\<close>

fun resolve_ids :: "item_dict \<Rightarrow> ('k \<times> pystr) list \<Rightarrow> error + (pystr \<times> item) list" where
  "resolve_ids its [] = Inr []"
| "resolve_ids its ((_, item_id) # rest) =
     (case map_of its item_id of
        None \<Rightarrow> Inl KeyError
      | Some itm \<Rightarrow>
          (case resolve_ids its rest of
             Inl e \<Rightarrow> Inl e
           | Inr out \<Rightarrow> Inr ((item_id, itm) # out)))"

text \<open>\<open>slice_k = index[-k:]\<close>, then the comprehension over \<open>reversed(slice_k)\<close>.\<close>

definition top_k_of :: "item_dict \<Rightarrow> ('k \<times> pystr) list \<Rightarrow> int \<Rightarrow> error + (pystr \<times> item) list" where
  "top_k_of its index k = resolve_ids its (rev (slice_from (- k) index))"

definition compute_top_k_by_price :: "service \<Rightarrow> int \<Rightarrow> error + (pystr \<times> item) list" where
  "compute_top_k_by_price s k = top_k_of (items s) (price_index s) k"

definition compute_top_k_by_quantity :: "service \<Rightarrow> int \<Rightarrow> error + (pystr \<times> item) list" where
  "compute_top_k_by_quantity s k = top_k_of (items s) (quantity_index s) k"

definition top_k_by_price :: "int \<Rightarrow> service \<Rightarrow> (error + (pystr \<times> item) list) \<times> service" where
  "top_k_by_price k s =
     (let (r, c) = lru_cached 64 (top_price_cache s) k (compute_top_k_by_price s k)
      in (r, s\<lparr>top_price_cache := c\<rparr>))"

definition top_k_by_quantity :: "int \<Rightarrow> service \<Rightarrow> (error + (pystr \<times> item) list) \<times> service" where
  "top_k_by_quantity k s =
     (let (r, c) = lru_cached 64 (top_quantity_cache s) k (compute_top_k_by_quantity s k)
      in (r, s\<lparr>top_quantity_cache := c\<rparr>))"

subsection \<open>Sequences of calls\<close>

datatype call =
    Upsert pystr rat int "metadata option"
  | Remove pystr
  | Get pystr
  | RangeQuantity rat rat
  | RangeValue rat rat
  | TopPrice int
  | TopQuantity int

text \<open>The state a call leaves, whether it returns or raises.\<close>

fun step :: "call \<Rightarrow> service \<Rightarrow> service" where
  "step (Upsert i p q md) s = snd (upsert_item i p q md s)"
| "step (Remove i) s = snd (remove_item i s)"
| "step (Get i) s = snd (get_item i s)"
| "step (RangeQuantity low high) s = snd (range_query_quantity low high s)"
| "step (RangeValue low high) s = snd (range_query_value low high s)"
| "step (TopPrice k) s = snd (top_k_by_price k s)"
| "step (TopQuantity k) s = snd (top_k_by_quantity k s)"

text \<open>The state after a sequence of calls on a fresh service, first call first.\<close>

definition run :: "call list \<Rightarrow> service" where
  "run calls = fold step calls init_service"

section \<open>The reference \<open>Inventory\<close>\<close>









section \<open>Properties of states\<close>

text \<open>The index entries that the stored items call for.\<close>

definition price_entries :: "item_dict \<Rightarrow> (rat \<times> pystr) list" where
  "price_entries its = map (\<lambda>(i, itm). (price itm, i)) its"

definition quantity_entries :: "item_dict \<Rightarrow> (int \<times> pystr) list" where
  "quantity_entries its = map (\<lambda>(i, itm). (qty itm, i)) its"

text \<open>
  The dictionary has each key once, every stored item passed the validation, and each index
  is sorted and holds, with multiplicity, exactly the entries of the stored items.
\<close>

definition service_inv :: "service \<Rightarrow> bool" where
  "service_inv s \<longleftrightarrow>
     distinct (map fst (items s)) \<and>
     list_all (\<lambda>(i, itm). 0 \<le> price itm \<and> 0 \<le> qty itm) (items s) \<and>
     sorted (price_index s) \<and>
     mset (price_index s) = mset (price_entries (items s)) \<and>
     sorted (quantity_index s) \<and>
     mset (quantity_index s) = mset (quantity_entries (items s))"

text \<open>Every cached result is what the method body computes in the current state.\<close>

definition caches_coherent :: "service \<Rightarrow> bool" where
  "caches_coherent s \<longleftrightarrow>
     list_all (\<lambda>((low, high), v). compute_range_query_quantity s low high = Inr v)
       (range_quantity_cache s) \<and>
     list_all (\<lambda>((low, high), v). compute_range_query_value s low high = Inr v)
       (range_value_cache s) \<and>
     list_all (\<lambda>(k, v). compute_top_k_by_price s k = Inr v) (top_price_cache s) \<and>
     list_all (\<lambda>(k, v). compute_top_k_by_quantity s k = Inr v) (top_quantity_cache s)"



section \<open>Binary search\<close>

lemma bisect_left_loop_spec:
  "sorted a \<Longrightarrow> lo \<le> hi \<Longrightarrow> hi \<le> length a \<Longrightarrow>
   (\<forall>j<lo. a ! j < x) \<Longrightarrow> (\<forall>j. hi \<le> j \<and> j < length a \<longrightarrow> x \<le> a ! j) \<Longrightarrow>
   bisect_left_loop a x lo hi \<le> length a \<and>
   (\<forall>j<bisect_left_loop a x lo hi. a ! j < x) \<and>
   (\<forall>j. bisect_left_loop a x lo hi \<le> j \<and> j < length a \<longrightarrow> x \<le> a ! j)"
proof (induction a x lo hi rule: bisect_left_loop.induct)
  case (1 a x lo hi)
  let ?mid = "(lo + hi) div 2"
  show ?case
  proof (cases "lo < hi")
    case False
    with 1(4) have "lo = hi" by simp
    have e: "bisect_left_loop a x lo hi = lo"
      using False by (subst bisect_left_loop.simps) simp
    show ?thesis unfolding e using 1(5,6,7) \<open>lo = hi\<close> by simp
  next
    case lt: True
    then have mid: "lo \<le> ?mid" "?mid < hi" by auto
    show ?thesis
    proof (cases "a ! ?mid < x")
      case True
      have e: "bisect_left_loop a x lo hi = bisect_left_loop a x (?mid + 1) hi"
        using lt True by (subst bisect_left_loop.simps) simp
      have "\<forall>j<?mid + 1. a ! j < x"
      proof (intro allI impI)
        fix j assume "j < ?mid + 1"
        then have "j \<le> ?mid" by simp
        moreover have "?mid < length a" using mid 1(5) by simp
        ultimately have "a ! j \<le> a ! ?mid"
          using \<open>sorted a\<close> by (rule_tac sorted_nth_mono)
        with True show "a ! j < x" by simp
      qed
      then show ?thesis unfolding e
        using 1(1) [OF lt True 1(3) _ 1(5) _ 1(7)] mid by simp
    next
      case False
      have e: "bisect_left_loop a x lo hi = bisect_left_loop a x lo ?mid"
        using lt False by (subst bisect_left_loop.simps) simp
      have "\<forall>j. ?mid \<le> j \<and> j < length a \<longrightarrow> x \<le> a ! j"
      proof (intro allI impI)
        fix j assume "?mid \<le> j \<and> j < length a"
        then have "a ! ?mid \<le> a ! j"
          using \<open>sorted a\<close> by (rule_tac sorted_nth_mono) auto
        with False show "x \<le> a ! j" by simp
      qed
      then show ?thesis unfolding e
        using 1(2) [OF lt False 1(3) _ _ 1(6)] mid 1(5) by simp
    qed
  qed
qed

lemma bisect_right_loop_spec:
  "sorted a \<Longrightarrow> lo \<le> hi \<Longrightarrow> hi \<le> length a \<Longrightarrow>
   (\<forall>j<lo. a ! j \<le> x) \<Longrightarrow> (\<forall>j. hi \<le> j \<and> j < length a \<longrightarrow> x < a ! j) \<Longrightarrow>
   bisect_right_loop a x lo hi \<le> length a \<and>
   (\<forall>j<bisect_right_loop a x lo hi. a ! j \<le> x) \<and>
   (\<forall>j. bisect_right_loop a x lo hi \<le> j \<and> j < length a \<longrightarrow> x < a ! j)"
proof (induction a x lo hi rule: bisect_right_loop.induct)
  case (1 a x lo hi)
  let ?mid = "(lo + hi) div 2"
  show ?case
  proof (cases "lo < hi")
    case False
    with 1(4) have "lo = hi" by simp
    have e: "bisect_right_loop a x lo hi = lo"
      using False by (subst bisect_right_loop.simps) simp
    show ?thesis unfolding e using 1(5,6,7) \<open>lo = hi\<close> by simp
  next
    case lt: True
    then have mid: "lo \<le> ?mid" "?mid < hi" by auto
    show ?thesis
    proof (cases "x < a ! ?mid")
      case False
      have e: "bisect_right_loop a x lo hi = bisect_right_loop a x (?mid + 1) hi"
        using lt False by (subst bisect_right_loop.simps) simp
      have "\<forall>j<?mid + 1. a ! j \<le> x"
      proof (intro allI impI)
        fix j assume "j < ?mid + 1"
        then have "j \<le> ?mid" by simp
        moreover have "?mid < length a" using mid 1(5) by simp
        ultimately have "a ! j \<le> a ! ?mid"
          using \<open>sorted a\<close> by (rule_tac sorted_nth_mono)
        with False show "a ! j \<le> x" by simp
      qed
      then show ?thesis unfolding e
        using 1(2) [OF lt False 1(3) _ 1(5) _ 1(7)] mid by simp
    next
      case True
      have e: "bisect_right_loop a x lo hi = bisect_right_loop a x lo ?mid"
        using lt True by (subst bisect_right_loop.simps) simp
      have "\<forall>j. ?mid \<le> j \<and> j < length a \<longrightarrow> x < a ! j"
      proof (intro allI impI)
        fix j assume "?mid \<le> j \<and> j < length a"
        then have "a ! ?mid \<le> a ! j"
          using \<open>sorted a\<close> by (rule_tac sorted_nth_mono) auto
        with True show "x < a ! j" by simp
      qed
      then show ?thesis unfolding e
        using 1(1) [OF lt True 1(3) _ _ 1(6)] mid 1(5) by simp
    qed
  qed
qed

lemma bisect_left_spec:
  "sorted a \<Longrightarrow>
   bisect_left a x \<le> length a \<and>
   (\<forall>j<bisect_left a x. a ! j < x) \<and>
   (\<forall>j. bisect_left a x \<le> j \<and> j < length a \<longrightarrow> x \<le> a ! j)"
  unfolding bisect_left_def by (rule bisect_left_loop_spec) auto

lemma bisect_left_le_length: "sorted a \<Longrightarrow> bisect_left a x \<le> length a"
  using bisect_left_spec [of a x] by blast

lemma bisect_left_below: "sorted a \<Longrightarrow> j < bisect_left a x \<Longrightarrow> a ! j < x"
  using bisect_left_spec [of a x] by blast

lemma bisect_left_above:
  "sorted a \<Longrightarrow> bisect_left a x \<le> j \<Longrightarrow> j < length a \<Longrightarrow> x \<le> a ! j"
  using bisect_left_spec [of a x] by blast

lemma bisect_right_spec:
  "sorted a \<Longrightarrow>
   bisect_right a x \<le> length a \<and>
   (\<forall>j<bisect_right a x. a ! j \<le> x) \<and>
   (\<forall>j. bisect_right a x \<le> j \<and> j < length a \<longrightarrow> x < a ! j)"
  unfolding bisect_right_def by (rule bisect_right_loop_spec) auto

lemma bisect_right_le_length: "sorted a \<Longrightarrow> bisect_right a x \<le> length a"
  using bisect_right_spec [of a x] by blast

lemma bisect_right_below: "sorted a \<Longrightarrow> j < bisect_right a x \<Longrightarrow> a ! j \<le> x"
  using bisect_right_spec [of a x] by blast

lemma bisect_right_above:
  "sorted a \<Longrightarrow> bisect_right a x \<le> j \<Longrightarrow> j < length a \<Longrightarrow> x < a ! j"
  using bisect_right_spec [of a x] by blast


lemma in_set_take_nth: "y \<in> set (take r a) \<Longrightarrow> \<exists>j. j < r \<and> j < length a \<and> a ! j = y"
  by (auto simp: in_set_conv_nth)

lemma in_set_drop_nth: "y \<in> set (drop r a) \<Longrightarrow> \<exists>j. r \<le> j \<and> j < length a \<and> a ! j = y"
proof -
  assume "y \<in> set (drop r a)"
  then obtain i where "i < length a - r" "drop r a ! i = y"
    by (auto simp: in_set_conv_nth)
  then have "r \<le> r + i \<and> r + i < length a \<and> a ! (r + i) = y" by auto
  then show ?thesis by blast
qed

text \<open>On a sorted list the searches find the ends of the run of entries equal to \<open>x\<close>.\<close>

lemma take_bisect_left: "sorted a \<Longrightarrow> take (bisect_left a x) a = filter (\<lambda>y. y < x) a"
proof -
  assume s: "sorted a"
  let ?r = "bisect_left a x"
  have 1: "\<forall>y\<in>set (take ?r a). y < x"
    using bisect_left_below [OF s, of _ x] by (auto dest!: in_set_take_nth)
  have 2: "\<forall>y\<in>set (drop ?r a). \<not> y < x"
    using bisect_left_above [OF s, of x] by (auto dest!: in_set_drop_nth simp: not_less)
  have "filter (\<lambda>y. y < x) a = filter (\<lambda>y. y < x) (take ?r a @ drop ?r a)"
    by simp
  also have "\<dots> = filter (\<lambda>y. y < x) (take ?r a) @ filter (\<lambda>y. y < x) (drop ?r a)"
    by (rule filter_append)
  also have "\<dots> = take ?r a" using 1 2 by (simp add: filter_empty_conv)
  finally show ?thesis by simp
qed

lemma take_bisect_right: "sorted a \<Longrightarrow> take (bisect_right a x) a = filter (\<lambda>y. y \<le> x) a"
proof -
  assume s: "sorted a"
  let ?r = "bisect_right a x"
  have 1: "\<forall>y\<in>set (take ?r a). y \<le> x"
    using bisect_right_below [OF s, of _ x] by (auto dest!: in_set_take_nth)
  have 2: "\<forall>y\<in>set (drop ?r a). \<not> y \<le> x"
    using bisect_right_above [OF s, of x] by (auto dest!: in_set_drop_nth simp: not_le)
  have "filter (\<lambda>y. y \<le> x) a = filter (\<lambda>y. y \<le> x) (take ?r a @ drop ?r a)"
    by simp
  also have "\<dots> = filter (\<lambda>y. y \<le> x) (take ?r a) @ filter (\<lambda>y. y \<le> x) (drop ?r a)"
    by (rule filter_append)
  also have "\<dots> = take ?r a" using 1 2 by (simp add: filter_empty_conv)
  finally show ?thesis by simp
qed

lemma drop_bisect_right: "sorted a \<Longrightarrow> drop (bisect_right a x) a = filter (\<lambda>y. x < y) a"
proof -
  assume s: "sorted a"
  let ?r = "bisect_right a x"
  have 1: "\<forall>y\<in>set (take ?r a). \<not> x < y"
    using bisect_right_below [OF s, of _ x] by (auto dest!: in_set_take_nth simp: not_less)
  have 2: "\<forall>y\<in>set (drop ?r a). x < y"
    using bisect_right_above [OF s, of x] by (auto dest!: in_set_drop_nth)
  have "filter (\<lambda>y. x < y) a = filter (\<lambda>y. x < y) (take ?r a @ drop ?r a)"
    by simp
  also have "\<dots> = filter (\<lambda>y. x < y) (take ?r a) @ filter (\<lambda>y. x < y) (drop ?r a)"
    by (rule filter_append)
  also have "\<dots> = drop ?r a" using 1 2 by (simp add: filter_empty_conv)
  finally show ?thesis by simp
qed

section \<open>Insertion into and removal from a sorted index\<close>

lemma mset_py_insort: "mset (py_insort x a) = add_mset x (mset a)"
proof -
  have "mset (take n a) + mset (drop n a) = mset a" for n
    by (metis append_take_drop_id mset_append)
  then show ?thesis by (simp add: py_insort_def Let_def)
qed

lemma sorted_py_insort: "sorted a \<Longrightarrow> sorted (py_insort x a)"
proof -
  assume s: "sorted a"
  have "py_insort x a = filter (\<lambda>y. y \<le> x) a @ x # filter (\<lambda>y. x < y) a"
    by (simp add: py_insort_def Let_def take_bisect_right [OF s] drop_bisect_right [OF s])
  moreover have "sorted (filter (\<lambda>y. y \<le> x) a @ x # filter (\<lambda>y. x < y) a)"
    using s by (auto simp: sorted_append sorted_wrt_filter)
  ultimately show ?thesis by simp
qed

lemma mset_list_pop: "i < length a \<Longrightarrow> mset (list_pop i a) = mset a - {#a ! i#}"
proof -
  assume i: "i < length a"
  have "mset a = mset (take i a @ a ! i # drop (Suc i) a)"
    using i by (simp only: id_take_nth_drop [symmetric])
  then show ?thesis by (simp add: list_pop_def)
qed

lemma sorted_list_pop: "sorted a \<Longrightarrow> sorted (list_pop i a)"
proof -
  assume s: "sorted a"
  have "sorted (take i a @ drop i a)" using s by simp
  then have "\<forall>x\<in>set (take i a). \<forall>y\<in>set (drop i a). x \<le> y"
    unfolding sorted_append by blast
  moreover have "set (drop (Suc i) a) \<subseteq> set (drop i a)"
    by (simp add: set_drop_subset_set_drop)
  ultimately show ?thesis
    using s unfolding list_pop_def sorted_append by auto
qed

text \<open>The search finds an entry that is present.\<close>

lemma bisect_left_finds:
  assumes "sorted a" and "x \<in> set a"
  shows "bisect_left a x < length a \<and> a ! bisect_left a x = x"
proof -
  let ?r = "bisect_left a x"
  from assms(2) obtain j where j: "j < length a" "a ! j = x"
    by (auto simp: in_set_conv_nth)
  have "?r \<le> j"
  proof (rule ccontr)
    assume "\<not> ?r \<le> j"
    then have "a ! j < x" using bisect_left_below [OF assms(1), of j x] by simp
    with j show False by simp
  qed
  with j have r: "?r < length a" by simp
  have "x \<le> a ! ?r" using bisect_left_above [OF assms(1), of x ?r] r by simp
  moreover have "a ! ?r \<le> a ! j"
    using assms(1) \<open>?r \<le> j\<close> j(1) by (rule sorted_nth_mono)
  ultimately show ?thesis using r j by simp
qed

lemma mset_index_discard: "sorted a \<Longrightarrow> mset (index_discard x a) = mset a - {#x#}"
proof (cases "x \<in> set a")
  case True
  assume "sorted a"
  from bisect_left_finds [OF this True] show ?thesis
    by (simp add: index_discard_def Let_def mset_list_pop)
next
  case False
  then have "bisect_left a x < length a \<Longrightarrow> a ! bisect_left a x \<noteq> x"
    using nth_mem by metis
  moreover have "mset a - {#x#} = mset a" using False by (simp add: diff_single_trivial)
  ultimately show ?thesis by (auto simp: index_discard_def Let_def)
qed

lemma sorted_index_discard: "sorted a \<Longrightarrow> sorted (index_discard x a)"
  by (simp add: index_discard_def Let_def sorted_list_pop)

section \<open>Entries of a dictionary\<close>

lemma mset_map_update_new:
  "map_of al k = None \<Longrightarrow>
   mset (map f (AList.update k v al)) = add_mset (f (k, v)) (mset (map f al))"
  by (induction al) (auto split: if_splits)

lemma mset_map_update_old:
  "distinct (map fst al) \<Longrightarrow> map_of al k = Some w \<Longrightarrow>
   mset (map f (AList.update k v al)) = add_mset (f (k, v)) (mset (map f al) - {#f (k, w)#})"
proof (induction al)
  case Nil
  then show ?case by simp
next
  case (Cons a al)
  show ?case
  proof (cases "fst a = k")
    case True
    with Cons.prems have "a = (k, w)" by (cases a) auto
    then show ?thesis by simp
  next
    case False
    with Cons.prems have m: "map_of al k = Some w" by (cases a) auto
    then have "(k, w) \<in> set al" by (rule map_of_SomeD)
    then have "f (k, w) \<in># mset (map f al)" by auto
    then have "add_mset (f a) (mset (map f al)) - {#f (k, w)#}
                 = add_mset (f a) (mset (map f al) - {#f (k, w)#})"
      by simp
    with False Cons.IH [OF _ m] Cons.prems(1) show ?thesis by simp
  qed
qed

lemma mset_map_delete:
  "distinct (map fst al) \<Longrightarrow> map_of al k = Some w \<Longrightarrow>
   mset (map f (AList.delete k al)) = mset (map f al) - {#f (k, w)#}"
proof (induction al)
  case Nil
  then show ?case by simp
next
  case (Cons a al)
  show ?case
  proof (cases "fst a = k")
    case True
    with Cons.prems have a: "a = (k, w)" by (cases a) auto
    with Cons.prems(1) have "k \<notin> fst ` set al" by auto
    then have "AList.delete k al = al" by (rule delete_id)
    with a show ?thesis by (simp add: AList.delete_eq)
  next
    case False
    with Cons.prems have m: "map_of al k = Some w" by (cases a) auto
    then have "(k, w) \<in> set al" by (rule map_of_SomeD)
    then have "f (k, w) \<in># mset (map f al)" by auto
    then have "add_mset (f a) (mset (map f al)) - {#f (k, w)#}
                 = add_mset (f a) (mset (map f al) - {#f (k, w)#})"
      by simp
    with False Cons.IH [OF _ m] Cons.prems(1) show ?thesis
      by (cases a) (simp add: AList.delete_eq)
  qed
qed

lemma delete_absent: "map_of al k = None \<Longrightarrow> AList.delete k al = al"
  by (rule delete_id) (simp add: map_of_eq_None_iff)

section \<open>The invariant of the service\<close>

lemma service_inv_init: "service_inv init_service"
  by (simp add: service_inv_def init_service_def price_entries_def quantity_entries_def)

lemma service_inv_cong:
  "items s' = items s \<Longrightarrow> price_index s' = price_index s \<Longrightarrow>
   quantity_index s' = quantity_index s \<Longrightarrow> service_inv s' = service_inv s"
  by (simp add: service_inv_def)

lemma service_inv_clear_caches: "service_inv (clear_caches s) = service_inv s"
  by (rule service_inv_cong) (simp_all add: clear_caches_def)

lemma list_all_update:
  "list_all P al \<Longrightarrow> P (k, v) \<Longrightarrow> list_all P (AList.update k v al)"
  by (induction al) auto

lemma list_all_delete: "list_all P al \<Longrightarrow> list_all P (AList.delete k al)"
  by (simp add: AList.delete_eq list_all_iff)


lemma price_entries_update_new:
  "map_of al k = None \<Longrightarrow>
   mset (price_entries (AList.update k v al)) = add_mset (price v, k) (mset (price_entries al))"
  unfolding price_entries_def
  by (subst mset_map_update_new) simp_all

lemma price_entries_update_old:
  "distinct (map fst al) \<Longrightarrow> map_of al k = Some w \<Longrightarrow>
   mset (price_entries (AList.update k v al))
     = add_mset (price v, k) (mset (price_entries al) - {#(price w, k)#})"
  unfolding price_entries_def
  by (subst mset_map_update_old [where w = w]) simp_all

lemma price_entries_delete:
  "distinct (map fst al) \<Longrightarrow> map_of al k = Some w \<Longrightarrow>
   mset (price_entries (AList.delete k al)) = mset (price_entries al) - {#(price w, k)#}"
  unfolding price_entries_def
  by (subst mset_map_delete [where w = w]) simp_all

lemma quantity_entries_update_new:
  "map_of al k = None \<Longrightarrow>
   mset (quantity_entries (AList.update k v al))
     = add_mset (qty v, k) (mset (quantity_entries al))"
  unfolding quantity_entries_def
  by (subst mset_map_update_new) simp_all

lemma quantity_entries_update_old:
  "distinct (map fst al) \<Longrightarrow> map_of al k = Some w \<Longrightarrow>
   mset (quantity_entries (AList.update k v al))
     = add_mset (qty v, k) (mset (quantity_entries al) - {#(qty w, k)#})"
  unfolding quantity_entries_def
  by (subst mset_map_update_old [where w = w]) simp_all

lemma quantity_entries_delete:
  "distinct (map fst al) \<Longrightarrow> map_of al k = Some w \<Longrightarrow>
   mset (quantity_entries (AList.delete k al)) = mset (quantity_entries al) - {#(qty w, k)#}"
  unfolding quantity_entries_def
  by (subst mset_map_delete [where w = w]) simp_all

lemma upsert_item_invalid:
  "p < 0 \<or> q < 0 \<Longrightarrow> upsert_item i p q md s = (Inl InvalidItemError, s)"
  by (simp add: upsert_item_def)

lemma upsert_item_new:
  "\<not> (p < 0 \<or> q < 0) \<Longrightarrow> map_of (items s) i = None \<Longrightarrow>
   upsert_item i p q md s =
     (Inr (), clear_caches
        (s\<lparr>items := AList.update i (Item p q (Some (or_empty md))) (items s),
           price_index := py_insort (p, i) (price_index s),
           quantity_index := py_insort (q, i) (quantity_index s)\<rparr>))"
  by (simp add: upsert_item_def Let_def)

lemma upsert_item_old:
  "\<not> (p < 0 \<or> q < 0) \<Longrightarrow> map_of (items s) i = Some old \<Longrightarrow>
   upsert_item i p q md s =
     (Inr (), clear_caches
        (s\<lparr>items := AList.update i (Item p q (Some (or_empty md))) (items s),
           price_index := py_insort (p, i) (index_discard (price old, i) (price_index s)),
           quantity_index := py_insort (q, i) (index_discard (qty old, i) (quantity_index s))\<rparr>))"
  by (simp add: upsert_item_def Let_def)

lemma remove_item_absent:
  "map_of (items s) i = None \<Longrightarrow> remove_item i s = (Inl ItemNotFoundError, s)"
  by (simp add: remove_item_def Let_def delete_absent)

lemma remove_item_present:
  "map_of (items s) i = Some itm \<Longrightarrow>
   remove_item i s =
     (Inr (), clear_caches
        (s\<lparr>items := AList.delete i (items s),
           price_index := index_discard (price itm, i) (price_index s),
           quantity_index := index_discard (qty itm, i) (quantity_index s)\<rparr>))"
  by (simp add: remove_item_def Let_def)

lemma service_inv_upsert_item:
  assumes "service_inv s"
  shows "service_inv (snd (upsert_item i p q md s))"
proof (cases "p < 0 \<or> q < 0")
  case True
  then show ?thesis using assms by (simp add: upsert_item_invalid)
next
  case valid: False
  let ?new = "Item p q (Some (or_empty md))"
  have new: "price ?new = p" "qty ?new = q" by (simp_all add: Item_def)
  from assms have d: "distinct (map fst (items s))"
    and nn: "list_all (\<lambda>(i, itm). 0 \<le> price itm \<and> 0 \<le> qty itm) (items s)"
    and sp: "sorted (price_index s)"
    and mp: "mset (price_index s) = mset (price_entries (items s))"
    and sq: "sorted (quantity_index s)"
    and mq: "mset (quantity_index s) = mset (quantity_entries (items s))"
    by (simp_all add: service_inv_def)
  have d': "distinct (map fst (AList.update i ?new (items s)))"
    using d by (rule distinct_update)
  have nn': "list_all (\<lambda>(i, itm). 0 \<le> price itm \<and> 0 \<le> qty itm) (AList.update i ?new (items s))"
    using nn valid by (intro list_all_update) (simp_all add: new)
  show ?thesis
  proof (cases "map_of (items s) i")
    case None
    have "mset (py_insort (p, i) (price_index s))
            = mset (price_entries (AList.update i ?new (items s)))"
      by (simp add: mset_py_insort mp price_entries_update_new [OF None] new)
    moreover have "mset (py_insort (q, i) (quantity_index s))
            = mset (quantity_entries (AList.update i ?new (items s)))"
      by (simp add: mset_py_insort mq quantity_entries_update_new [OF None] new)
    ultimately show ?thesis
      using valid None d' nn' sp sq
      by (simp add: upsert_item_new service_inv_clear_caches)
         (simp add: service_inv_def sorted_py_insort)
  next
    case (Some old)
    have "mset (py_insort (p, i) (index_discard (price old, i) (price_index s)))
            = mset (price_entries (AList.update i ?new (items s)))"
      by (simp add: mset_py_insort mset_index_discard [OF sp] mp
            price_entries_update_old [OF d Some] new)
    moreover have "mset (py_insort (q, i) (index_discard (qty old, i) (quantity_index s)))
            = mset (quantity_entries (AList.update i ?new (items s)))"
      by (simp add: mset_py_insort mset_index_discard [OF sq] mq
            quantity_entries_update_old [OF d Some] new)
    ultimately show ?thesis
      using valid Some d' nn' sp sq
      by (simp add: upsert_item_old service_inv_clear_caches)
         (simp add: service_inv_def sorted_py_insort sorted_index_discard)
  qed
qed

lemma service_inv_remove_item:
  assumes "service_inv s"
  shows "service_inv (snd (remove_item i s))"
proof (cases "map_of (items s) i")
  case None
  then show ?thesis using assms by (simp add: remove_item_absent)
next
  case (Some itm)
  from assms have d: "distinct (map fst (items s))"
    and nn: "list_all (\<lambda>(i, itm). 0 \<le> price itm \<and> 0 \<le> qty itm) (items s)"
    and sp: "sorted (price_index s)"
    and mp: "mset (price_index s) = mset (price_entries (items s))"
    and sq: "sorted (quantity_index s)"
    and mq: "mset (quantity_index s) = mset (quantity_entries (items s))"
    by (simp_all add: service_inv_def)
  have "mset (index_discard (price itm, i) (price_index s))
          = mset (price_entries (AList.delete i (items s)))"
    by (simp add: mset_index_discard [OF sp] mp price_entries_delete [OF d Some])
  moreover have "mset (index_discard (qty itm, i) (quantity_index s))
          = mset (quantity_entries (AList.delete i (items s)))"
    by (simp add: mset_index_discard [OF sq] mq quantity_entries_delete [OF d Some])
  ultimately show ?thesis
    using Some d nn sp sq
    by (simp add: remove_item_present service_inv_clear_caches)
       (simp add: service_inv_def sorted_index_discard distinct_delete list_all_delete)
qed

lemma lru_cached_snd_cases:
  "snd (lru_cached n c k r) = c \<or>
   (\<exists>v. map_of c k = Some v \<and> snd (lru_cached n c k r) = (k, v) # AList.delete k c) \<or>
   (\<exists>v. r = Inr v \<and> map_of c k = None \<and> snd (lru_cached n c k r) = take n ((k, v) # c))"
  by (auto simp: lru_cached_def split: option.splits sum.splits)

lemma query_frames:
  "items (snd (get_item i s)) = items s"
  "price_index (snd (get_item i s)) = price_index s"
  "quantity_index (snd (get_item i s)) = quantity_index s"
  "items (snd (range_query_quantity low high s)) = items s"
  "price_index (snd (range_query_quantity low high s)) = price_index s"
  "quantity_index (snd (range_query_quantity low high s)) = quantity_index s"
  "items (snd (range_query_value low high s)) = items s"
  "price_index (snd (range_query_value low high s)) = price_index s"
  "quantity_index (snd (range_query_value low high s)) = quantity_index s"
  "items (snd (top_k_by_price k s)) = items s"
  "price_index (snd (top_k_by_price k s)) = price_index s"
  "quantity_index (snd (top_k_by_price k s)) = quantity_index s"
  "items (snd (top_k_by_quantity k s)) = items s"
  "price_index (snd (top_k_by_quantity k s)) = price_index s"
  "quantity_index (snd (top_k_by_quantity k s)) = quantity_index s"
  by (simp_all add: get_item_def range_query_quantity_def range_query_value_def
        top_k_by_price_def top_k_by_quantity_def split: option.splits prod.splits)

lemma service_inv_step: "service_inv s \<Longrightarrow> service_inv (step c s)"
proof (cases c)
  case (Upsert i p q md)
  assume "service_inv s"
  then show ?thesis unfolding Upsert step.simps by (rule service_inv_upsert_item)
next
  case (Remove i)
  assume "service_inv s"
  then show ?thesis unfolding Remove step.simps by (rule service_inv_remove_item)
next
  case (Get i)
  assume "service_inv s"
  then show ?thesis unfolding Get step.simps
    by (subst service_inv_cong [of _ s]) (simp_all only: query_frames)
next
  case (RangeQuantity low high)
  assume "service_inv s"
  then show ?thesis unfolding RangeQuantity step.simps
    by (subst service_inv_cong [of _ s]) (simp_all only: query_frames)
next
  case (RangeValue low high)
  assume "service_inv s"
  then show ?thesis unfolding RangeValue step.simps
    by (subst service_inv_cong [of _ s]) (simp_all only: query_frames)
next
  case (TopPrice k)
  assume "service_inv s"
  then show ?thesis unfolding TopPrice step.simps
    by (subst service_inv_cong [of _ s]) (simp_all only: query_frames)
next
  case (TopQuantity k)
  assume "service_inv s"
  then show ?thesis unfolding TopQuantity step.simps
    by (subst service_inv_cong [of _ s]) (simp_all only: query_frames)
qed

lemma service_inv_fold: "service_inv s \<Longrightarrow> service_inv (fold step calls s)"
  by (induction calls arbitrary: s) (simp_all add: service_inv_step)

lemma service_inv_run: "service_inv (run calls)"
  unfolding run_def by (rule service_inv_fold) (rule service_inv_init)


section \<open>Index and store agree\<close>





section \<open>Outcomes of the mutating calls\<close>

lemma or_empty_Some_or_empty: "or_empty (Some (or_empty md)) = or_empty md"
  by (simp add: or_empty_def split: option.splits)

lemma or_empty_eq: "or_empty md = (case md of None \<Rightarrow> [] | Some m \<Rightarrow> m)"
  by (simp add: or_empty_def split: option.splits)

lemma Item_stored: "Item p q (Some (or_empty md)) = \<lparr>price = p, qty = q, metadata = or_empty md\<rparr>"
  by (simp add: Item_def or_empty_Some_or_empty)

lemma upsert_item_valid:
  "\<not> (p < 0 \<or> q < 0) \<Longrightarrow>
   fst (upsert_item i p q md s) = Inr () \<and>
   items (snd (upsert_item i p q md s))
     = AList.update i \<lparr>price = p, qty = q, metadata = or_empty md\<rparr> (items s) \<and>
   range_quantity_cache (snd (upsert_item i p q md s)) = [] \<and>
   range_value_cache (snd (upsert_item i p q md s)) = [] \<and>
   top_price_cache (snd (upsert_item i p q md s)) = [] \<and>
   top_quantity_cache (snd (upsert_item i p q md s)) = []"
  by (cases "map_of (items s) i")
     (simp_all add: upsert_item_new upsert_item_old clear_caches_def Item_stored)

lemma remove_item_ok:
  "map_of (items s) i = Some itm \<Longrightarrow>
   fst (remove_item i s) = Inr () \<and>
   range_quantity_cache (snd (remove_item i s)) = [] \<and>
   range_value_cache (snd (remove_item i s)) = [] \<and>
   top_price_cache (snd (remove_item i s)) = [] \<and>
   top_quantity_cache (snd (remove_item i s)) = []"
  by (simp add: remove_item_present clear_caches_def)

text \<open>
  Claim C5. \<open>upsert_item\<close> raises \<open>InvalidItemError\<close> exactly when the price or the quantity
  is negative, and then leaves the whole state as it was; otherwise it returns normally, the
  record stored under the identifier is the one given (absent metadata as the empty
  dictionary), and the records of all other identifiers are as before.
\<close>

theorem upsert_item_validation:
  "(fst (upsert_item i p q md s) = Inl InvalidItemError \<longleftrightarrow> p < 0 \<or> q < 0) \<and>
   (p < 0 \<or> q < 0 \<longrightarrow> snd (upsert_item i p q md s) = s) \<and>
   (\<not> (p < 0 \<or> q < 0) \<longrightarrow>
      fst (upsert_item i p q md s) = Inr () \<and>
      map_of (items (snd (upsert_item i p q md s))) i
        = Some \<lparr>price = p, qty = q, metadata = (case md of None \<Rightarrow> [] | Some m \<Rightarrow> m)\<rparr> \<and>
      (\<forall>j. j \<noteq> i \<longrightarrow>
         map_of (items (snd (upsert_item i p q md s))) j = map_of (items s) j))"
proof (cases "p < 0 \<or> q < 0")
  case True
  then show ?thesis by (simp add: upsert_item_invalid)
next
  case False
  from upsert_item_valid [OF False, of i md s] False show ?thesis
    by (simp add: update_conv' or_empty_eq)
qed

theorem upsert_item_validation_witness:
  "fst (upsert_item [98, 97, 100] (- 1) 5 None (run [Upsert [65] 10 5 None]))
     = Inl InvalidItemError \<and>
   snd (upsert_item [98, 97, 100] (- 1) 5 None (run [Upsert [65] 10 5 None]))
     = run [Upsert [65] 10 5 None] \<and>
   fst (upsert_item [65] 12 7 (Some [([99], [114])]) (run [Upsert [65] 10 5 None])) = Inr () \<and>
   map_of (items (snd (upsert_item [65] 12 7 (Some [([99], [114])])
      (run [Upsert [65] 10 5 None])))) [65]
     = Some \<lparr>price = 12, qty = 7, metadata = [([99], [114])]\<rparr>"
  using upsert_item_validation [of "[98, 97, 100]" "- 1" 5 None "run [Upsert [65] 10 5 None]"]
    upsert_item_validation [of "[65]" 12 7 "Some [([99], [114])]" "run [Upsert [65] 10 5 None]"]
  by simp

text \<open>
  Claim C6. \<open>remove_item\<close> and \<open>get_item\<close> raise \<open>ItemNotFoundError\<close> exactly when the
  identifier is not in the item dictionary, and then leave the whole state as it was; when
  it is there, both return normally and \<open>get_item\<close> returns the stored record.
\<close>

theorem not_found_iff_absent:
  "(fst (remove_item i s) = Inl ItemNotFoundError \<longleftrightarrow> map_of (items s) i = None) \<and>
   (fst (get_item i s) = Inl ItemNotFoundError \<longleftrightarrow> map_of (items s) i = None) \<and>
   (map_of (items s) i = None \<longrightarrow> snd (remove_item i s) = s \<and> snd (get_item i s) = s) \<and>
   (\<forall>itm. map_of (items s) i = Some itm \<longrightarrow>
      fst (remove_item i s) = Inr () \<and> fst (get_item i s) = Inr itm)"
proof (cases "map_of (items s) i")
  case None
  then show ?thesis by (simp add: remove_item_absent get_item_def)
next
  case (Some itm)
  then show ?thesis by (simp add: remove_item_present get_item_def)
qed

theorem not_found_iff_absent_witness:
  "map_of (items (run [Upsert [65] 10 5 None])) [66] = None \<and>
   fst (remove_item [66] (run [Upsert [65] 10 5 None])) = Inl ItemNotFoundError \<and>
   fst (get_item [66] (run [Upsert [65] 10 5 None])) = Inl ItemNotFoundError \<and>
   snd (remove_item [66] (run [Upsert [65] 10 5 None])) = run [Upsert [65] 10 5 None] \<and>
   snd (get_item [66] (run [Upsert [65] 10 5 None])) = run [Upsert [65] 10 5 None] \<and>
   map_of (items (run [Upsert [65] 10 5 None])) [65]
     = Some \<lparr>price = 10, qty = 5, metadata = []\<rparr> \<and>
   fst (remove_item [65] (run [Upsert [65] 10 5 None])) = Inr () \<and>
   fst (get_item [65] (run [Upsert [65] 10 5 None]))
     = Inr \<lparr>price = 10, qty = 5, metadata = []\<rparr>"
proof -
  have a: "map_of (items (run [Upsert [65] 10 5 None])) [66] = None" by code_simp
  have b: "map_of (items (run [Upsert [65] 10 5 None])) [65]
     = Some \<lparr>price = 10, qty = 5, metadata = []\<rparr>" by code_simp
  show ?thesis
    using a b not_found_iff_absent [of "[66]" "run [Upsert [65] 10 5 None]"]
      not_found_iff_absent [of "[65]" "run [Upsert [65] 10 5 None]"]
    by simp
qed

text \<open>
  Claim C7. With a price and a quantity that are not negative, \<open>upsert_item\<close> returns
  normally from any state, and \<open>get_item\<close> on the same identifier right after it returns the
  record with that price, that quantity and that metadata (absent metadata as the empty
  dictionary).
\<close>

theorem upsert_get_round_trip:
  "0 \<le> p \<Longrightarrow> 0 \<le> q \<Longrightarrow>
   fst (upsert_item i p q md s) = Inr () \<and>
   fst (get_item i (snd (upsert_item i p q md s)))
     = Inr \<lparr>price = p, qty = q, metadata = (case md of None \<Rightarrow> [] | Some m \<Rightarrow> m)\<rparr>"
proof -
  assume "0 \<le> p" "0 \<le> q"
  then have v: "\<not> (p < 0 \<or> q < 0)" by simp
  from upsert_item_valid [OF v, of i md s] show ?thesis
    by (simp add: get_item_def update_conv' or_empty_eq)
qed

theorem upsert_get_round_trip_witness:
  "(0 :: rat) \<le> 7 / 2 \<and> (0 :: int) \<le> 10 \<and>
   fst (upsert_item [88] (7 / 2) 10 (Some [([99], [114])]) (run [Upsert [88] 1 1 None])) = Inr () \<and>
   fst (get_item [88]
      (snd (upsert_item [88] (7 / 2) 10 (Some [([99], [114])]) (run [Upsert [88] 1 1 None]))))
     = Inr \<lparr>price = 7 / 2, qty = 10, metadata = [([99], [114])]\<rparr>"
proof -
  have p: "(0 :: rat) \<le> 7 / 2" by simp
  have q: "(0 :: int) \<le> 10" by simp
  show ?thesis
    using p q upsert_get_round_trip [OF p q, of "[88]" "Some [([99], [114])]"
        "run [Upsert [88] 1 1 None]"]
    by simp
qed

section \<open>Evaluating the searches on a sorted list\<close>

lemma bisect_left_eq: "sorted a \<Longrightarrow> bisect_left a x = length (filter (\<lambda>y. y < x) a)"
proof -
  assume s: "sorted a"
  have "length (take (bisect_left a x) a) = bisect_left a x"
    using bisect_left_le_length [OF s, of x] by simp
  then show ?thesis by (simp only: take_bisect_left [OF s])
qed

lemma bisect_right_eq: "sorted a \<Longrightarrow> bisect_right a x = length (filter (\<lambda>y. y \<le> x) a)"
proof -
  assume s: "sorted a"
  have "length (take (bisect_right a x) a) = bisect_right a x"
    using bisect_right_le_length [OF s, of x] by simp
  then show ?thesis by (simp only: take_bisect_right [OF s])
qed



section \<open>Caches\<close>

lemma lru_cached_empty: "fst (lru_cached n [] k r) = r"
  by (simp add: lru_cached_def split: sum.splits)

text \<open>
  Claim C4. In any state, with any cached results, when \<open>upsert_item\<close> or \<open>remove_item\<close>
  returns normally, each of the four cached queries called right after it returns what its
  body computes in the state after the mutation: the mutation has emptied the four caches.
\<close>

theorem cache_coherence_after_mutation:
  "(fst (upsert_item i p q md s) = Inr () \<and> s' = snd (upsert_item i p q md s)) \<or>
   (fst (remove_item i s) = Inr () \<and> s' = snd (remove_item i s)) \<Longrightarrow>
   fst (range_query_quantity low high s') = compute_range_query_quantity s' low high \<and>
   fst (range_query_value low high s') = compute_range_query_value s' low high \<and>
   fst (top_k_by_price k s') = compute_top_k_by_price s' k \<and>
   fst (top_k_by_quantity k s') = compute_top_k_by_quantity s' k"
proof -
  assume a: "(fst (upsert_item i p q md s) = Inr () \<and> s' = snd (upsert_item i p q md s)) \<or>
   (fst (remove_item i s) = Inr () \<and> s' = snd (remove_item i s))"
  have c: "range_quantity_cache s' = [] \<and> range_value_cache s' = [] \<and>
           top_price_cache s' = [] \<and> top_quantity_cache s' = []"
    using a
  proof
    assume u: "fst (upsert_item i p q md s) = Inr () \<and> s' = snd (upsert_item i p q md s)"
    have "\<not> (p < 0 \<or> q < 0)"
    proof
      assume "p < 0 \<or> q < 0"
      then have "fst (upsert_item i p q md s) = Inl InvalidItemError"
        by (simp add: upsert_item_invalid)
      with u show False by simp
    qed
    from upsert_item_valid [OF this, of i md s] u show ?thesis by simp
  next
    assume r: "fst (remove_item i s) = Inr () \<and> s' = snd (remove_item i s)"
    have "map_of (items s) i \<noteq> None"
    proof
      assume "map_of (items s) i = None"
      then have "fst (remove_item i s) = Inl ItemNotFoundError"
        by (simp add: remove_item_absent)
      with r show False by simp
    qed
    then obtain itm where "map_of (items s) i = Some itm" by blast
    from remove_item_ok [OF this] r show ?thesis by simp
  qed
  have 1: "fst (range_query_quantity low high s') = compute_range_query_quantity s' low high"
    using c by (simp add: range_query_quantity_def split_def lru_cached_empty)
  have 2: "fst (range_query_value low high s') = compute_range_query_value s' low high"
    using c by (simp add: range_query_value_def split_def lru_cached_empty)
  have 3: "fst (top_k_by_price k s') = compute_top_k_by_price s' k"
    using c by (simp add: top_k_by_price_def split_def lru_cached_empty)
  have 4: "fst (top_k_by_quantity k s') = compute_top_k_by_quantity s' k"
    using c by (simp add: top_k_by_quantity_def split_def lru_cached_empty)
  from 1 2 3 4 show ?thesis by blast
qed

theorem cache_coherence_after_mutation_witness:
  "range_quantity_cache (run [Upsert [65] 10 5 None, RangeQuantity 0 100, RangeValue 0 100,
      TopPrice 1, TopQuantity 1]) = [((0, 100), 5)] \<and>
   fst (upsert_item [66] 20 2 None (run [Upsert [65] 10 5 None, RangeQuantity 0 100,
      RangeValue 0 100, TopPrice 1, TopQuantity 1])) = Inr () \<and>
   fst (range_query_quantity 0 100 (snd (upsert_item [66] 20 2 None
      (run [Upsert [65] 10 5 None, RangeQuantity 0 100, RangeValue 0 100,
        TopPrice 1, TopQuantity 1])))) = Inr 7 \<and>
   fst (range_query_value 0 100 (snd (upsert_item [66] 20 2 None
      (run [Upsert [65] 10 5 None, RangeQuantity 0 100, RangeValue 0 100,
        TopPrice 1, TopQuantity 1])))) = Inr 90 \<and>
   fst (top_k_by_price 1 (snd (upsert_item [66] 20 2 None
      (run [Upsert [65] 10 5 None, RangeQuantity 0 100, RangeValue 0 100,
        TopPrice 1, TopQuantity 1]))))
     = Inr [([66], \<lparr>price = 20, qty = 2, metadata = []\<rparr>)] \<and>
   fst (top_k_by_quantity 1 (snd (upsert_item [66] 20 2 None
      (run [Upsert [65] 10 5 None, RangeQuantity 0 100, RangeValue 0 100,
        TopPrice 1, TopQuantity 1]))))
     = Inr [([65], \<lparr>price = 10, qty = 5, metadata = []\<rparr>)]"
proof -
  let ?s = "run [Upsert [65] 10 5 None, RangeQuantity 0 100, RangeValue 0 100,
      TopPrice 1, TopQuantity 1]"
  let ?s' = "snd (upsert_item [66] 20 2 None ?s)"
  have s: "?s =
    \<lparr>items = [([65], \<lparr>price = 10, qty = 5, metadata = []\<rparr>)],
     price_index = [(10, [65])], quantity_index = [(5, [65])],
     range_quantity_cache = [((0, 100), 5)], range_value_cache = [((0, 100), 50)],
     top_price_cache = [(1, [([65], \<lparr>price = 10, qty = 5, metadata = []\<rparr>)])],
     top_quantity_cache = [(1, [([65], \<lparr>price = 10, qty = 5, metadata = []\<rparr>)])]\<rparr>"
    by (simp add: run_def init_service_def upsert_item_def Let_def Item_def or_empty_def
        clear_caches_def py_insort_def bisect_left_eq bisect_right_eq slice_def slice_from_def
        lru_cached_def range_query_quantity_def range_query_value_def
        compute_range_query_quantity_def compute_range_query_value_def
        top_k_by_price_def top_k_by_quantity_def compute_top_k_by_price_def
        compute_top_k_by_quantity_def top_k_of_def high_sentinel_def max_codepoint_def)
  have s': "?s' =
    \<lparr>items = [([65], \<lparr>price = 10, qty = 5, metadata = []\<rparr>),
              ([66], \<lparr>price = 20, qty = 2, metadata = []\<rparr>)],
     price_index = [(10, [65]), (20, [66])], quantity_index = [(2, [66]), (5, [65])],
     range_quantity_cache = [], range_value_cache = [],
     top_price_cache = [], top_quantity_cache = []\<rparr>"
    unfolding s
    by (simp add: upsert_item_def Let_def Item_def or_empty_def clear_caches_def py_insort_def
        bisect_right_eq)
  have c: "range_quantity_cache ?s = [((0, 100), 5)]" unfolding s by simp
  have u: "fst (upsert_item [66] 20 2 None ?s) = Inr ()"
    unfolding s by (simp add: upsert_item_def Let_def)
  have 1: "compute_range_query_quantity ?s' 0 100 = Inr 7"
    unfolding s'
    by (simp add: compute_range_query_quantity_def bisect_left_eq bisect_right_eq slice_def
        high_sentinel_def max_codepoint_def)
  have 2: "compute_range_query_value ?s' 0 100 = Inr 90"
    unfolding s'
    by (simp add: compute_range_query_value_def bisect_left_eq bisect_right_eq slice_def
        high_sentinel_def max_codepoint_def)
  have 3: "compute_top_k_by_price ?s' 1 = Inr [([66], \<lparr>price = 20, qty = 2, metadata = []\<rparr>)]"
    unfolding s' by (simp add: compute_top_k_by_price_def top_k_of_def slice_from_def)
  have 4: "compute_top_k_by_quantity ?s' 1 = Inr [([65], \<lparr>price = 10, qty = 5, metadata = []\<rparr>)]"
    unfolding s' by (simp add: compute_top_k_by_quantity_def top_k_of_def slice_from_def)
  have h: "(fst (upsert_item [66] 20 2 None ?s) = Inr () \<and> ?s' = snd (upsert_item [66] 20 2 None ?s)) \<or>
   (fst (remove_item [66] ?s) = Inr () \<and> ?s' = snd (remove_item [66] ?s))"
    using u by simp
  from cache_coherence_after_mutation [OF h, of 0 100 1]
  have "fst (range_query_quantity 0 100 ?s') = Inr 7 \<and>
        fst (range_query_value 0 100 ?s') = Inr 90 \<and>
        fst (top_k_by_price 1 ?s') = Inr [([66], \<lparr>price = 20, qty = 2, metadata = []\<rparr>)] \<and>
        fst (top_k_by_quantity 1 ?s') = Inr [([65], \<lparr>price = 10, qty = 5, metadata = []\<rparr>)]"
    by (simp only: 1 2 3 4)
  with c u show ?thesis by blast
qed

section \<open>Where the code leaves its documentation\<close>

text \<open>
  Claim C3 says that \<open>top_k_by_price(k)\<close> and \<open>top_k_by_quantity(k)\<close> are empty for
  \<open>k \<le> 0\<close>. The slice \<open>index[-k:]\<close> is the whole index for \<open>k = 0\<close>, and the index without
  its first \<open>-k\<close> entries for \<open>k < 0\<close>: on a service that holds three items, the queries
  return all three for \<open>k = 0\<close> and two of them for \<open>k = -1\<close>.
\<close>

theorem top_k_nonpositive_not_empty:
  "fst (top_k_by_price 0
      (run [Upsert [65] 10 5 None, Upsert [66] 20 2 None, Upsert [67] 15 3 None]))
     = Inr [([66], \<lparr>price = 20, qty = 2, metadata = []\<rparr>),
            ([67], \<lparr>price = 15, qty = 3, metadata = []\<rparr>),
            ([65], \<lparr>price = 10, qty = 5, metadata = []\<rparr>)] \<and>
   fst (top_k_by_quantity 0
      (run [Upsert [65] 10 5 None, Upsert [66] 20 2 None, Upsert [67] 15 3 None]))
     = Inr [([65], \<lparr>price = 10, qty = 5, metadata = []\<rparr>),
            ([67], \<lparr>price = 15, qty = 3, metadata = []\<rparr>),
            ([66], \<lparr>price = 20, qty = 2, metadata = []\<rparr>)] \<and>
   fst (top_k_by_price (- 1)
      (run [Upsert [65] 10 5 None, Upsert [66] 20 2 None, Upsert [67] 15 3 None]))
     = Inr [([66], \<lparr>price = 20, qty = 2, metadata = []\<rparr>),
            ([67], \<lparr>price = 15, qty = 3, metadata = []\<rparr>)] \<and>
   fst (top_k_by_quantity (- 1)
      (run [Upsert [65] 10 5 None, Upsert [66] 20 2 None, Upsert [67] 15 3 None]))
     = Inr [([65], \<lparr>price = 10, qty = 5, metadata = []\<rparr>),
            ([67], \<lparr>price = 15, qty = 3, metadata = []\<rparr>)]"
  by code_simp

lemma sentinel_case_state:
  "run [Upsert [1114111, 97] 10 5 None] =
     \<lparr>items = [([1114111, 97], \<lparr>price = 10, qty = 5, metadata = []\<rparr>)],
      price_index = [(10, [1114111, 97])], quantity_index = [(5, [1114111, 97])],
      range_quantity_cache = [], range_value_cache = [],
      top_price_cache = [], top_quantity_cache = []\<rparr>"
  by (simp add: run_def init_service_def upsert_item_def Let_def Item_def or_empty_def
      clear_caches_def py_insort_def bisect_right_eq)

text \<open>
  Claim C2 says that the range queries sum over all stored items whose price lies in
  \<open>[low, high]\<close>, whatever their identifiers. The upper search key is
  \<open>(high, chr(0x10ffff))\<close>, and a string of two or more code points that starts with
  \<open>U+10FFFF\<close> is greater than that sentinel: an item with such an identifier and a price
  equal to \<open>high\<close> is left out. With the one item \<open>"\U0010ffffa"\<close> at price 10 and
  quantity 5, the queries on \<open>[10, 10]\<close> return 0 where the sums are 5 and 50.
\<close>

theorem range_query_misses_item_above_sentinel:
  "is_pystr [1114111, 97] \<and>
   fst (get_item [1114111, 97] (run [Upsert [1114111, 97] 10 5 None]))
     = Inr \<lparr>price = 10, qty = 5, metadata = []\<rparr> \<and>
   fst (range_query_quantity 10 10 (run [Upsert [1114111, 97] 10 5 None])) = Inr 0 \<and>
   fst (range_query_value 10 10 (run [Upsert [1114111, 97] 10 5 None])) = Inr 0"
  unfolding sentinel_case_state
  by (simp add: is_pystr_def max_codepoint_def get_item_def range_query_quantity_def
      range_query_value_def compute_range_query_quantity_def compute_range_query_value_def
      lru_cached_def bisect_left_eq bisect_right_eq slice_def high_sentinel_def)

section \<open>Cached results stay current\<close>

lemma lru_cached_keeps:
  "list_all (\<lambda>(k, v). f k = Inr v) c \<Longrightarrow>
   list_all (\<lambda>(k, v). f k = Inr v) (snd (lru_cached n c key (f key)))"
proof -
  assume a: "list_all (\<lambda>(k, v). f k = Inr v) c"
  show ?thesis
  proof (cases "map_of c key")
    case None
    show ?thesis
    proof (cases "f key")
      case (Inl e)
      with None a show ?thesis by (simp add: lru_cached_def)
    next
      case (Inr v)
      have "set (take n ((key, v) # c)) \<subseteq> set ((key, v) # c)" by (rule set_take_subset)
      with a Inr have "list_all (\<lambda>(k, v). f k = Inr v) (take n ((key, v) # c))"
        unfolding list_all_iff by auto
      with None Inr show ?thesis by (simp add: lru_cached_def)
    qed
  next
    case (Some v)
    then have "(key, v) \<in> set c" by (rule map_of_SomeD)
    with a have "f key = Inr v" unfolding list_all_iff by auto
    moreover have "list_all (\<lambda>(k, v). f k = Inr v) (AList.delete key c)"
      using a by (rule list_all_delete)
    ultimately show ?thesis using Some by (simp add: lru_cached_def)
  qed
qed

lemma lru_cached_current:
  "list_all (\<lambda>(k, v). f k = Inr v) c \<Longrightarrow> fst (lru_cached n c key (f key)) = f key"
proof (cases "map_of c key")
  case None
  then show ?thesis by (simp add: lru_cached_def split: sum.splits)
next
  case (Some v)
  assume a: "list_all (\<lambda>(k, v). f k = Inr v) c"
  from Some have "(key, v) \<in> set c" by (rule map_of_SomeD)
  with a have "f key = Inr v" unfolding list_all_iff by auto
  with Some show ?thesis by (simp add: lru_cached_def)
qed

text \<open>The method bodies read the dictionary and the indices only.\<close>

lemma compute_cong:
  assumes "items s' = items s" "price_index s' = price_index s"
    "quantity_index s' = quantity_index s"
  shows "compute_range_query_quantity s' = compute_range_query_quantity s"
    and "compute_range_query_value s' = compute_range_query_value s"
    and "compute_top_k_by_price s' = compute_top_k_by_price s"
    and "compute_top_k_by_quantity s' = compute_top_k_by_quantity s"
  using assms
  by (simp_all add: fun_eq_iff compute_range_query_quantity_def compute_range_query_value_def
      compute_top_k_by_price_def compute_top_k_by_quantity_def)

lemma caches_coherent_init: "caches_coherent init_service"
  by (simp add: caches_coherent_def init_service_def)

lemma caches_coherent_empty:
  "range_quantity_cache s = [] \<Longrightarrow> range_value_cache s = [] \<Longrightarrow>
   top_price_cache s = [] \<Longrightarrow> top_quantity_cache s = [] \<Longrightarrow> caches_coherent s"
  by (simp add: caches_coherent_def)

lemma caches_coherent_upsert_item:
  "caches_coherent s \<Longrightarrow> caches_coherent (snd (upsert_item i p q md s))"
proof (cases "p < 0 \<or> q < 0")
  case True
  assume "caches_coherent s"
  with True show ?thesis by (simp add: upsert_item_invalid)
next
  case False
  from upsert_item_valid [OF False, of i md s] show ?thesis
    by (intro caches_coherent_empty) simp_all
qed

lemma caches_coherent_remove_item:
  "caches_coherent s \<Longrightarrow> caches_coherent (snd (remove_item i s))"
proof (cases "map_of (items s) i")
  case None
  assume "caches_coherent s"
  with None show ?thesis by (simp add: remove_item_absent)
next
  case (Some itm)
  from remove_item_ok [OF Some] show ?thesis
    by (intro caches_coherent_empty) simp_all
qed

lemma caches_coherent_range_query_quantity:
  assumes "caches_coherent s"
  shows "caches_coherent (snd (range_query_quantity low high s))"
proof -
  let ?s' = "snd (range_query_quantity low high s)"
  have f: "items ?s' = items s" "price_index ?s' = price_index s"
    "quantity_index ?s' = quantity_index s"
    by (simp_all only: query_frames)
  have c: "range_quantity_cache ?s' =
      snd (lru_cached 128 (range_quantity_cache s) (low, high)
             (compute_range_query_quantity s low high))"
    and o: "range_value_cache ?s' = range_value_cache s"
      "top_price_cache ?s' = top_price_cache s"
      "top_quantity_cache ?s' = top_quantity_cache s"
    by (simp_all add: range_query_quantity_def split_def Let_def)
  have "list_all (\<lambda>(k, v). (\<lambda>(low, high). compute_range_query_quantity s low high) k = Inr v)
          (snd (lru_cached 128 (range_quantity_cache s) (low, high)
             ((\<lambda>(low, high). compute_range_query_quantity s low high) (low, high))))"
    using assms by (intro lru_cached_keeps) (simp add: caches_coherent_def split_def)
  then show ?thesis
    using assms
    by (simp add: caches_coherent_def compute_cong [OF f] c o split_def)
qed

lemma caches_coherent_range_query_value:
  assumes "caches_coherent s"
  shows "caches_coherent (snd (range_query_value low high s))"
proof -
  let ?s' = "snd (range_query_value low high s)"
  have f: "items ?s' = items s" "price_index ?s' = price_index s"
    "quantity_index ?s' = quantity_index s"
    by (simp_all only: query_frames)
  have c: "range_value_cache ?s' =
      snd (lru_cached 128 (range_value_cache s) (low, high)
             (compute_range_query_value s low high))"
    and o: "range_quantity_cache ?s' = range_quantity_cache s"
      "top_price_cache ?s' = top_price_cache s"
      "top_quantity_cache ?s' = top_quantity_cache s"
    by (simp_all add: range_query_value_def split_def Let_def)
  have "list_all (\<lambda>(k, v). (\<lambda>(low, high). compute_range_query_value s low high) k = Inr v)
          (snd (lru_cached 128 (range_value_cache s) (low, high)
             ((\<lambda>(low, high). compute_range_query_value s low high) (low, high))))"
    using assms by (intro lru_cached_keeps) (simp add: caches_coherent_def split_def)
  then show ?thesis
    using assms
    by (simp add: caches_coherent_def compute_cong [OF f] c o split_def)
qed

lemma caches_coherent_top_k_by_price:
  assumes "caches_coherent s"
  shows "caches_coherent (snd (top_k_by_price k s))"
proof -
  let ?s' = "snd (top_k_by_price k s)"
  have f: "items ?s' = items s" "price_index ?s' = price_index s"
    "quantity_index ?s' = quantity_index s"
    by (simp_all only: query_frames)
  have c: "top_price_cache ?s' =
      snd (lru_cached 64 (top_price_cache s) k (compute_top_k_by_price s k))"
    and o: "range_quantity_cache ?s' = range_quantity_cache s"
      "range_value_cache ?s' = range_value_cache s"
      "top_quantity_cache ?s' = top_quantity_cache s"
    by (simp_all add: top_k_by_price_def split_def Let_def)
  have "list_all (\<lambda>(k, v). compute_top_k_by_price s k = Inr v)
          (snd (lru_cached 64 (top_price_cache s) k (compute_top_k_by_price s k)))"
    using assms by (intro lru_cached_keeps) (simp add: caches_coherent_def)
  then show ?thesis
    using assms
    by (simp add: caches_coherent_def compute_cong [OF f] c o)
qed

lemma caches_coherent_top_k_by_quantity:
  assumes "caches_coherent s"
  shows "caches_coherent (snd (top_k_by_quantity k s))"
proof -
  let ?s' = "snd (top_k_by_quantity k s)"
  have f: "items ?s' = items s" "price_index ?s' = price_index s"
    "quantity_index ?s' = quantity_index s"
    by (simp_all only: query_frames)
  have c: "top_quantity_cache ?s' =
      snd (lru_cached 64 (top_quantity_cache s) k (compute_top_k_by_quantity s k))"
    and o: "range_quantity_cache ?s' = range_quantity_cache s"
      "range_value_cache ?s' = range_value_cache s"
      "top_price_cache ?s' = top_price_cache s"
    by (simp_all add: top_k_by_quantity_def split_def Let_def)
  have "list_all (\<lambda>(k, v). compute_top_k_by_quantity s k = Inr v)
          (snd (lru_cached 64 (top_quantity_cache s) k (compute_top_k_by_quantity s k)))"
    using assms by (intro lru_cached_keeps) (simp add: caches_coherent_def)
  then show ?thesis
    using assms
    by (simp add: caches_coherent_def compute_cong [OF f] c o)
qed

lemma caches_coherent_step: "caches_coherent s \<Longrightarrow> caches_coherent (step c s)"
  by (cases c)
     (simp_all add: caches_coherent_upsert_item caches_coherent_remove_item get_item_def
        caches_coherent_range_query_quantity caches_coherent_range_query_value
        caches_coherent_top_k_by_price caches_coherent_top_k_by_quantity split: option.splits)

lemma caches_coherent_fold: "caches_coherent s \<Longrightarrow> caches_coherent (fold step calls s)"
  by (induction calls arbitrary: s) (simp_all add: caches_coherent_step)

lemma caches_coherent_run: "caches_coherent (run calls)"
  unfolding run_def by (rule caches_coherent_fold) (rule caches_coherent_init)

text \<open>In a state whose caches are current, a cached query returns what its body computes.\<close>

lemma coherent_queries:
  assumes "caches_coherent s"
  shows "fst (range_query_quantity low high s) = compute_range_query_quantity s low high"
    and "fst (range_query_value low high s) = compute_range_query_value s low high"
    and "fst (top_k_by_price k s) = compute_top_k_by_price s k"
    and "fst (top_k_by_quantity k s) = compute_top_k_by_quantity s k"
proof -
  have "fst (lru_cached 128 (range_quantity_cache s) (low, high)
          ((\<lambda>(low, high). compute_range_query_quantity s low high) (low, high)))
        = (\<lambda>(low, high). compute_range_query_quantity s low high) (low, high)"
    using assms by (intro lru_cached_current) (simp add: caches_coherent_def split_def)
  then show "fst (range_query_quantity low high s) = compute_range_query_quantity s low high"
    by (simp add: range_query_quantity_def split_def Let_def)
  have "fst (lru_cached 128 (range_value_cache s) (low, high)
          ((\<lambda>(low, high). compute_range_query_value s low high) (low, high)))
        = (\<lambda>(low, high). compute_range_query_value s low high) (low, high)"
    using assms by (intro lru_cached_current) (simp add: caches_coherent_def split_def)
  then show "fst (range_query_value low high s) = compute_range_query_value s low high"
    by (simp add: range_query_value_def split_def Let_def)
  have "fst (lru_cached 64 (top_price_cache s) k (compute_top_k_by_price s k))
        = compute_top_k_by_price s k"
    using assms by (intro lru_cached_current) (simp add: caches_coherent_def)
  then show "fst (top_k_by_price k s) = compute_top_k_by_price s k"
    by (simp add: top_k_by_price_def split_def Let_def)
  have "fst (lru_cached 64 (top_quantity_cache s) k (compute_top_k_by_quantity s k))
        = compute_top_k_by_quantity s k"
    using assms by (intro lru_cached_current) (simp add: caches_coherent_def)
  then show "fst (top_k_by_quantity k s) = compute_top_k_by_quantity s k"
    by (simp add: top_k_by_quantity_def split_def Let_def)
qed

section \<open>Upserting what is stored\<close>






section \<open>Top-K on a sorted index\<close>







section \<open>The indexed service and the reference\<close>








section \<open>The range queries below the sentinel\<close>

text \<open>
  What the range queries compute when the sentinel does bound the stored identifiers: on a
  sorted list the slice between the two searches holds the entries from \<open>lo\<close> up to \<open>hi\<close>.
\<close>

lemma slice_bisect:
  fixes a :: "'a::linorder list"
  assumes s: "sorted a"
  shows "slice (bisect_left a lo) (bisect_right a hi) a
           = filter (\<lambda>e. \<not> e < lo \<and> e \<le> hi) a"
proof -
  let ?l = "bisect_left a lo" and ?r = "bisect_right a hi"
  let ?Q = "\<lambda>e. e \<le> hi" and ?R = "\<lambda>e. \<not> e < lo \<and> e \<le> hi"
  have tl: "take ?l a = filter (\<lambda>e. e < lo) a" by (rule take_bisect_left [OF s])
  have tr: "take ?r a = filter ?Q a" by (rule take_bisect_right [OF s])
  have below: "\<forall>e\<in>set (take ?l a). e < lo" unfolding tl by simp
  have above: "\<forall>e\<in>set (drop ?l a). \<not> e < lo"
    using bisect_left_above [OF s, of lo] by (auto dest!: in_set_drop_nth simp: not_less)
  have "filter ?R a = filter ?R (take ?l a @ drop ?l a)" by simp
  also have "\<dots> = filter ?R (take ?l a) @ filter ?R (drop ?l a)" by (rule filter_append)
  also have "filter ?R (take ?l a) = []" using below by (auto simp: filter_empty_conv)
  also have "filter ?R (drop ?l a) = filter ?Q (drop ?l a)"
    using above by (intro filter_cong) auto
  finally have R: "filter ?R a = filter ?Q (drop ?l a)" by simp
  show ?thesis
  proof (cases "?l \<le> ?r")
    case True
    have "\<forall>e\<in>set (take ?l a). ?Q e"
    proof
      fix e assume "e \<in> set (take ?l a)"
      then obtain j where j: "j < ?l" "j < length a" "a ! j = e"
        by (auto dest!: in_set_take_nth)
      with True have "j < ?r" by simp
      from bisect_right_below [OF s this] j show "e \<le> hi" by simp
    qed
    then have f: "filter ?Q (take ?l a) = take ?l a" by (simp add: filter_id_conv)
    have "filter ?Q a = filter ?Q (take ?l a @ drop ?l a)" by simp
    also have "\<dots> = take ?l a @ filter ?Q (drop ?l a)" by (simp only: filter_append f)
    finally have "drop ?l (filter ?Q a) = drop ?l (take ?l a @ filter ?Q (drop ?l a))"
      by simp
    also have "\<dots> = filter ?Q (drop ?l a)"
      using bisect_left_le_length [OF s, of lo] by simp
    finally show ?thesis unfolding slice_def tr R .
  next
    case False
    then have e: "slice ?l ?r a = []" by (simp add: slice_def)
    have "\<forall>e\<in>set (drop ?l a). \<not> ?Q e"
    proof
      fix e assume "e \<in> set (drop ?l a)"
      then obtain j where j: "?l \<le> j" "j < length a" "a ! j = e"
        by (auto dest!: in_set_drop_nth)
      with False have "?r \<le> j" by simp
      from bisect_right_above [OF s this j(2)] j show "\<not> e \<le> hi" by simp
    qed
    then have "filter ?Q (drop ?l a) = []" by (simp add: filter_empty_conv)
    then show ?thesis unfolding e R by simp
  qed
qed

lemma sum_qty_present:
  "\<forall>e\<in>set es. map_of its (snd e) \<noteq> None \<Longrightarrow>
   sum_qty its es tot = Inr (tot + sum_list (map (\<lambda>e. qty (the (map_of its (snd e)))) es))"
proof (induction es arbitrary: tot)
  case Nil
  show ?case by simp
next
  case (Cons e es)
  obtain k i where e: "e = (k, i)" by (cases e)
  from Cons.prems obtain itm where l: "map_of its i = Some itm" unfolding e by auto
  from Cons.prems have "\<forall>e\<in>set es. map_of its (snd e) \<noteq> None" by simp
  from Cons.IH [OF this] l show ?case unfolding e by simp
qed

lemma sum_value_present:
  "\<forall>e\<in>set es. map_of its (snd e) \<noteq> None \<Longrightarrow>
   sum_value its es tot
     = Inr (tot + sum_list (map (\<lambda>e. price (the (map_of its (snd e)))
                                       * of_int (qty (the (map_of its (snd e))))) es))"
proof (induction es arbitrary: tot)
  case Nil
  show ?case by simp
next
  case (Cons e es)
  obtain k i where e: "e = (k, i)" by (cases e)
  from Cons.prems obtain itm where l: "map_of its i = Some itm" unfolding e by auto
  from Cons.prems have "\<forall>e\<in>set es. map_of its (snd e) \<noteq> None" by simp
  from Cons.IH [OF this] l show ?case unfolding e by simp
qed

text \<open>
  A sum over the index entries in a range is the sum over the stored items in that range.
\<close>

lemma sum_over_index:
  fixes h :: "item \<Rightarrow> 'b::comm_monoid_add"
  assumes d: "distinct (map fst its)"
    and m: "mset index = mset (price_entries its)"
  shows "sum_list (map (\<lambda>e. h (the (map_of its (snd e))))
            (filter (\<lambda>e. low \<le> fst e \<and> fst e \<le> high) index))
         = sum_list (map (\<lambda>kv. h (snd kv))
            (filter (\<lambda>kv. low \<le> price (snd kv) \<and> price (snd kv) \<le> high) its))"
proof -
  let ?f = "\<lambda>(i, itm). (price itm, i)"
  let ?he = "\<lambda>e. h (the (map_of its (snd e)))"
  let ?P = "\<lambda>e :: rat \<times> pystr. low \<le> fst e \<and> fst e \<le> high"
  have l: "map_of its (fst kv) = Some (snd kv)" if "kv \<in> set its" for kv
  proof -
    obtain i itm where kv: "kv = (i, itm)" by (cases kv)
    with that d show ?thesis by simp
  qed
  have "sum_list (map ?he (filter ?P index)) = sum_mset (image_mset ?he (filter_mset ?P (mset index)))"
    by (simp only: sum_mset_sum_list [symmetric] mset_map mset_filter)
  also have "\<dots> = sum_mset (image_mset ?he (filter_mset ?P (mset (map ?f its))))"
    by (simp only: m price_entries_def)
  also have "\<dots> = sum_list (map ?he (filter ?P (map ?f its)))"
    by (simp only: sum_mset_sum_list [symmetric] mset_map mset_filter)
  also have "filter ?P (map ?f its) = map ?f (filter (?P \<circ> ?f) its)"
    by (rule filter_map)
  also have "map ?he (map ?f (filter (?P \<circ> ?f) its))
      = map (\<lambda>kv. h (snd kv)) (filter (?P \<circ> ?f) its)"
    using l by (auto simp: split_def)
  also have "filter (?P \<circ> ?f) its
      = filter (\<lambda>kv. low \<le> price (snd kv) \<and> price (snd kv) \<le> high) its"
    by (rule filter_cong) (auto simp: split_def)
  finally show ?thesis .
qed

lemma range_queries_below_sentinel:
  assumes inv: "service_inv s"
    and b: "\<forall>i\<in>fst ` set (items s). i \<le> high_sentinel"
  shows "compute_range_query_quantity s low high
           = Inr (sum_list (map (\<lambda>kv. qty (snd kv))
               (filter (\<lambda>kv. low \<le> price (snd kv) \<and> price (snd kv) \<le> high) (items s))))"
    and "compute_range_query_value s low high
           = Inr (sum_list (map (\<lambda>kv. price (snd kv) * of_int (qty (snd kv)))
               (filter (\<lambda>kv. low \<le> price (snd kv) \<and> price (snd kv) \<le> high) (items s))))"
proof -
  from inv have d: "distinct (map fst (items s))"
    and sp: "sorted (price_index s)"
    and mp: "mset (price_index s) = mset (price_entries (items s))"
    by (simp_all add: service_inv_def)
  have set_index: "set (price_index s) = (\<lambda>(i, itm). (price itm, i)) ` set (items s)"
    using mset_eq_setD [OF mp] by (simp add: price_entries_def)
  have entry: "map_of (items s) (snd e) \<noteq> None \<and> snd e \<le> high_sentinel"
    if "e \<in> set (price_index s)" for e
  proof -
    from that set_index obtain i itm where kv: "(i, itm) \<in> set (items s)" "e = (price itm, i)"
      by auto
    with d have "map_of (items s) i = Some itm" by simp
    moreover from kv b have "i \<le> high_sentinel" by force
    ultimately show ?thesis unfolding kv by simp
  qed
  have sl: "slice (bisect_left (price_index s) (low, []))
              (bisect_right (price_index s) (high, high_sentinel)) (price_index s)
            = filter (\<lambda>e. low \<le> fst e \<and> fst e \<le> high) (price_index s)"
    unfolding slice_bisect [OF sp]
  proof (rule filter_cong [OF refl])
    fix e assume "e \<in> set (price_index s)"
    then have "snd e \<le> high_sentinel" using entry by blast
    then show "(\<not> e < (low, []) \<and> e \<le> (high, high_sentinel))
                 = (low \<le> fst e \<and> fst e \<le> high)"
      by (cases e) (auto simp: less_prod_def less_eq_prod_def)
  qed
  have pres: "\<forall>e\<in>set (filter (\<lambda>e. low \<le> fst e \<and> fst e \<le> high) (price_index s)).
                map_of (items s) (snd e) \<noteq> None"
    using entry by simp
  show "compute_range_query_quantity s low high
           = Inr (sum_list (map (\<lambda>kv. qty (snd kv))
               (filter (\<lambda>kv. low \<le> price (snd kv) \<and> price (snd kv) \<le> high) (items s))))"
    unfolding compute_range_query_quantity_def Let_def sl sum_qty_present [OF pres]
    using sum_over_index [OF d mp, of qty low high] by simp
  show "compute_range_query_value s low high
           = Inr (sum_list (map (\<lambda>kv. price (snd kv) * of_int (qty (snd kv)))
               (filter (\<lambda>kv. low \<le> price (snd kv) \<and> price (snd kv) \<le> high) (items s))))"
    unfolding compute_range_query_value_def Let_def sl sum_value_present [OF pres]
    using sum_over_index [OF d mp, of "\<lambda>itm. price itm * of_int (qty itm)" low high] by simp
qed

text \<open>
  A Python string is at most the sentinel unless it has two or more code points and starts
  with \<open>U+10FFFF\<close>.
\<close>

lemma below_sentinel:
  "is_pystr i \<Longrightarrow> length i \<le> 1 \<or> hd i < max_codepoint \<Longrightarrow> i \<le> high_sentinel"
proof (cases i)
  case Nil
  then show ?thesis by simp
next
  case (Cons c cs)
  assume "is_pystr i" and "length i \<le> 1 \<or> hd i < max_codepoint"
  with Cons show ?thesis
    by (auto simp: is_pystr_def high_sentinel_def)
qed

lemma range_queries_run_below_sentinel:
  assumes "\<forall>i\<in>fst ` set (items (run calls)). i \<le> high_sentinel"
  shows "fst (range_query_quantity low high (run calls))
           = Inr (sum_list (map (\<lambda>kv. qty (snd kv))
               (filter (\<lambda>kv. low \<le> price (snd kv) \<and> price (snd kv) \<le> high)
                  (items (run calls)))))"
    and "fst (range_query_value low high (run calls))
           = Inr (sum_list (map (\<lambda>kv. price (snd kv) * of_int (qty (snd kv)))
               (filter (\<lambda>kv. low \<le> price (snd kv) \<and> price (snd kv) \<le> high)
                  (items (run calls)))))"
  using range_queries_below_sentinel [OF service_inv_run assms]
  by (simp_all only: coherent_queries [OF caches_coherent_run])

end
